theory Spec2Isabelle
  imports Complex_Main "HOL-Library.Multiset"
begin

section \<open>Characters and Python string predicates\<close>

text \<open>
  Python strings are sequences of Unicode code points; the embedding covers ASCII text,
  a \<^typ>\<open>string\<close> of characters with code below 128. On such text \<^verbatim>\<open>\w\<close> is
  \<^verbatim>\<open>[A-Za-z0-9_]\<close>, \<^verbatim>\<open>\s\<close> and \<^verbatim>\<open>str.strip\<close> use the characters for which
  \<^verbatim>\<open>str.isspace\<close> holds (codes 9 to 13, 28 to 31 and 32), and \<^verbatim>\<open>re.IGNORECASE\<close>
  compares letters after lower-casing. Characters with code 128 and above are treated as
  caseless characters outside every class.
\<close>

datatype py_error = IndexError | KeyError | TypeError | ZeroDivisionError | JSONDecodeError

definition is_upper_char :: "char \<Rightarrow> bool" where
  "is_upper_char c = (65 \<le> (of_char c :: nat) \<and> (of_char c :: nat) \<le> 90)"

definition is_lower_char :: "char \<Rightarrow> bool" where
  "is_lower_char c = (97 \<le> (of_char c :: nat) \<and> (of_char c :: nat) \<le> 122)"

definition is_digit_char :: "char \<Rightarrow> bool" where
  "is_digit_char c = (48 \<le> (of_char c :: nat) \<and> (of_char c :: nat) \<le> 57)"

definition is_alnum_char :: "char \<Rightarrow> bool" where
  "is_alnum_char c = (is_upper_char c \<or> is_lower_char c \<or> is_digit_char c)"

definition is_word_char :: "char \<Rightarrow> bool" where
  "is_word_char c = (is_alnum_char c \<or> c = CHR ''_'')"

definition is_space_char :: "char \<Rightarrow> bool" where
  "is_space_char c = ((9 \<le> (of_char c :: nat) \<and> (of_char c :: nat) \<le> 13)
     \<or> (28 \<le> (of_char c :: nat) \<and> (of_char c :: nat) \<le> 32))"

definition to_lower :: "char \<Rightarrow> char" where
  "to_lower c = (if is_upper_char c then char_of (of_char c + 32 :: nat) else c)"

definition to_upper :: "char \<Rightarrow> char" where
  "to_upper c = (if is_lower_char c then char_of (of_char c - 32 :: nat) else c)"

definition lower :: "string \<Rightarrow> string" where
  "lower s = map to_lower s"

definition upper :: "string \<Rightarrow> string" where
  "upper s = map to_upper s"

text \<open>\<^verbatim>\<open>str.isupper\<close>: at least one cased character and no lower-case one.\<close>

definition isupper :: "string \<Rightarrow> bool" where
  "isupper s = (list_ex is_upper_char s \<and> \<not> list_ex is_lower_char s)"

text \<open>\<^verbatim>\<open>str.strip()\<close>\<close>

definition strip :: "string \<Rightarrow> string" where
  "strip s = rev (dropWhile is_space_char (rev (dropWhile is_space_char s)))"

section \<open>The pattern \<^verbatim>\<open>\b\<close> + \<^verbatim>\<open>re.escape(original)\<close> + \<^verbatim>\<open>\b\<close>, \<^verbatim>\<open>re.IGNORECASE\<close>\<close>

text \<open>
  The compiled pattern is a literal between two word-boundary assertions. A scan of the
  text cuts it into pieces: a \<open>Hit\<close> for every non-overlapping match, found from left
  to right, and a \<open>Gap\<close> for every character that no match covers. The scan carries the
  character before the current position, which \<^verbatim>\<open>\b\<close> inspects.
\<close>

datatype piece = Gap char | Hit string

definition head :: "string \<Rightarrow> char option" where
  "head s = (case s of [] \<Rightarrow> None | c # _ \<Rightarrow> Some c)"

definition last_char :: "char option \<Rightarrow> string \<Rightarrow> char option" where
  "last_char prev s = (if s = [] then prev else Some (last s))"

definition is_word_at :: "char option \<Rightarrow> bool" where
  "is_word_at x = (case x of None \<Rightarrow> False | Some c \<Rightarrow> is_word_char c)"


definition word_boundary :: "char option \<Rightarrow> char option \<Rightarrow> bool" where
  "word_boundary l r = (is_word_at l \<noteq> is_word_at r)"

definition literal_at :: "string \<Rightarrow> string \<Rightarrow> bool" where
  "literal_at p s = (length p \<le> length s \<and> lower (take (length p) s) = lower p)"

definition match_here :: "string \<Rightarrow> char option \<Rightarrow> string \<Rightarrow> bool" where
  "match_here p prev s =
     (word_boundary prev (head s) \<and> literal_at p s \<and>
      word_boundary (last_char prev (take (length p) s)) (head (drop (length p) s)))"

function scan :: "string \<Rightarrow> char option \<Rightarrow> string \<Rightarrow> piece list" where
  "scan p prev [] = (if match_here p prev [] then [Hit []] else [])"
| "scan p prev (c # cs) =
     (if match_here p prev (c # cs) then
        (if p = [] then Hit [] # Gap c # scan p (Some c) cs
         else Hit (take (length p) (c # cs))
                # scan p (last_char prev (take (length p) (c # cs))) (drop (length p) (c # cs)))
      else Gap c # scan p (Some c) cs)"
  by pat_completeness auto
termination
  by (relation "measure (\<lambda>(p, prev, s). length s)") auto


definition hits :: "piece list \<Rightarrow> string list" where
  "hits ps = concat (map (\<lambda>x. case x of Gap c \<Rightarrow> [] | Hit m \<Rightarrow> [m]) ps)"

text \<open>\<^verbatim>\<open>pattern.findall(text)\<close>\<close>

definition findall :: "string \<Rightarrow> string \<Rightarrow> string list" where
  "findall p text = hits (scan p None text)"

text \<open>
  \<^verbatim>\<open>pattern.sub(replacement, text)\<close> with a string: every match becomes the string. No
  replacement of the table holds a backslash, so the template is the string as written.
\<close>

definition sub_string :: "string \<Rightarrow> string \<Rightarrow> string \<Rightarrow> string" where
  "sub_string p r text =
     concat (map (\<lambda>x. case x of Gap c \<Rightarrow> [c] | Hit m \<Rightarrow> r) (scan p None text))"

text \<open>
  \<^verbatim>\<open>pattern.sub(replace_func, text)\<close> with a function: the function is called on every
  match, from left to right, and an exception it raises ends the substitution.
\<close>

fun sub_pieces :: "(string \<Rightarrow> py_error + string) \<Rightarrow> piece list \<Rightarrow> py_error + string" where
  "sub_pieces f [] = Inr []"
| "sub_pieces f (Gap c # ps) =
     (case sub_pieces f ps of Inl e \<Rightarrow> Inl e | Inr t \<Rightarrow> Inr (c # t))"
| "sub_pieces f (Hit m # ps) =
     (case f m of Inl e \<Rightarrow> Inl e
      | Inr r \<Rightarrow> (case sub_pieces f ps of Inl e \<Rightarrow> Inl e | Inr t \<Rightarrow> Inr (r @ t)))"

definition sub_func :: "string \<Rightarrow> (string \<Rightarrow> py_error + string) \<Rightarrow> string \<Rightarrow> py_error + string" where
  "sub_func p f text = sub_pieces f (scan p None text)"

section \<open>Stage 3: the token-aware optimizer (\<^verbatim>\<open>scripts/03_token_aware.py\<close>)\<close>

text \<open>
  The tokenizer is an external model. \<^verbatim>\<open>_count_tokens\<close> is the length of its
  encoding, a natural number; the embedding takes that count as a parameter.
\<close>

type_synonym tokenizer = "string \<Rightarrow> nat"

definition replacement_candidates :: "(string \<times> string) list" where
  "replacement_candidates =
     [(''it is'', ''it's''), (''you are'', ''you're''), (''we are'', ''we're''),
      (''they are'', ''they're''), (''i am'', ''i'm''), (''do not'', ''don't''),
      (''does not'', ''doesn't''), (''did not'', ''didn't''), (''will not'', ''won't''),
      (''can not'', ''can't''), (''cannot'', ''can't''), (''should not'', ''shouldn't''),
      (''would not'', ''wouldn't''), (''could not'', ''couldn't''), (''have not'', ''haven't''),
      (''has not'', ''hasn't''), (''had not'', ''hadn't''),
      (''going to'', ''gonna''), (''want to'', ''wanna''), (''got to'', ''gotta''),
      (''approximately'', ''~''), (''equals'', ''=''), (''greater than'', ''>''),
      (''less than'', ''<''), (''and/or'', ''or''),
      (''version'', ''v''), (''versus'', ''vs''), (''example'', ''e.g.''),
      (''that is'', ''i.e.''), (''et cetera'', ''etc''), (''number'', ''#''),
      (''basically'', []), (''actually'', []), (''really'', []), (''very'', []),
      (''just'', []), (''quite'', []), (''rather'', [])]"

record efficient =
  replacement :: string
  savings :: int
  original_tokens :: nat
  replacement_tokens :: nat

text \<open>
  A Python dict keeps its keys in insertion order: assigning to a key that is present
  replaces its value in place, assigning to a new key appends it.
\<close>

fun dict_set :: "'k \<Rightarrow> 'v \<Rightarrow> ('k \<times> 'v) list \<Rightarrow> ('k \<times> 'v) list" where
  "dict_set k v [] = [(k, v)]"
| "dict_set k v ((k', v') # kvs) =
     (if k' = k then (k, v) # kvs else (k', v') # dict_set k v kvs)"

fun build_from :: "tokenizer \<Rightarrow> int \<Rightarrow> (string \<times> string) list
    \<Rightarrow> (string \<times> efficient) list \<Rightarrow> (string \<times> efficient) list" where
  "build_from tok ms [] efficient_map = efficient_map"
| "build_from tok ms ((original, repl) # rest) efficient_map =
     (let orig_tokens = tok original;
          repl_tokens = (if repl \<noteq> [] then tok repl else 0);
          saved = int orig_tokens - int repl_tokens
      in build_from tok ms rest
           (if saved \<ge> ms
            then dict_set original
                   \<lparr>replacement = repl, savings = saved,
                    original_tokens = orig_tokens, replacement_tokens = repl_tokens\<rparr>
                   efficient_map
            else efficient_map))"

definition build_efficient_map :: "tokenizer \<Rightarrow> int \<Rightarrow> (string \<times> efficient) list" where
  "build_efficient_map tok ms = build_from tok ms replacement_candidates []"

record optimizer =
  tokenizer :: tokenizer
  min_savings :: int
  token_efficient_map :: "(string \<times> efficient) list"

text \<open>\<^verbatim>\<open>TokenAwareOptimizer.__init__\<close>\<close>

definition TokenAwareOptimizer :: "tokenizer \<Rightarrow> int \<Rightarrow> optimizer" where
  "TokenAwareOptimizer tok ms =
     \<lparr>tokenizer = tok, min_savings = ms, token_efficient_map = build_efficient_map tok ms\<rparr>"

text \<open>
  \<^verbatim>\<open>replace_func\<close>, closed over \<^verbatim>\<open>replacement\<close>. \<^verbatim>\<open>matched_text[0]\<close> raises on an
  empty match, which only an empty phrase produces.
\<close>

definition replace_func :: "string \<Rightarrow> string \<Rightarrow> py_error + string" where
  "replace_func repl matched_text =
     (if repl = [] then Inr []
      else if isupper matched_text \<and> length repl > 1 then Inr (upper repl)
      else (case matched_text of
              [] \<Rightarrow> Inl IndexError
            | c # _ \<Rightarrow>
                if is_upper_char c \<and> length repl > 1
                then Inr (upper (take 1 repl) @ drop 1 repl)
                else Inr repl))"

record made =
  made_original :: string
  made_replacement :: string
  count :: nat
  tokens_saved :: int

text \<open>The loop variables: \<^verbatim>\<open>optimized_text\<close>, \<^verbatim>\<open>total_savings\<close> (here \<open>saved_total\<close>) and
  \<^verbatim>\<open>replacements_made\<close>.\<close>

type_synonym opt_state = "string \<times> int \<times> made list"

text \<open>One iteration of the loop over \<^verbatim>\<open>sorted_replacements\<close>.\<close>

definition optimize_step :: "tokenizer \<Rightarrow> int \<Rightarrow> string \<times> efficient \<Rightarrow> opt_state
    \<Rightarrow> py_error + opt_state" where
  "optimize_step tok ms entry st =
     (case entry of (original, info) \<Rightarrow>
      case st of (optimized_text, saved_total, replacements_made) \<Rightarrow>
      (case findall original optimized_text of
         [] \<Rightarrow> Inr st
       | sample_match # _ \<Rightarrow>
           (let matches = findall original optimized_text;
                before_sample = sub_string original (replacement info) sample_match;
                context_original_tokens = tok sample_match;
                context_replacement_tokens = tok before_sample;
                actual_savings = int context_original_tokens - int context_replacement_tokens
            in if actual_savings \<ge> ms then
                 (case sub_func original (replace_func (replacement info)) optimized_text of
                    Inl e \<Rightarrow> Inl e
                  | Inr t \<Rightarrow>
                      Inr (t, saved_total + actual_savings * int (length matches),
                           replacements_made @
                             [\<lparr>made_original = original, made_replacement = replacement info,
                               count = length matches,
                               tokens_saved = actual_savings * int (length matches)\<rparr>]))
               else Inr st)))"

fun optimize_loop :: "tokenizer \<Rightarrow> int \<Rightarrow> (string \<times> efficient) list \<Rightarrow> opt_state
    \<Rightarrow> py_error + opt_state" where
  "optimize_loop tok ms [] st = Inr st"
| "optimize_loop tok ms (entry # rest) st =
     (case optimize_step tok ms entry st of
        Inl e \<Rightarrow> Inl e
      | Inr st' \<Rightarrow> optimize_loop tok ms rest st')"

text \<open>
  \<^verbatim>\<open>sorted(items, key=savings, reverse=True)\<close>: descending and stable, entries of equal
  savings keep their order.
\<close>

definition sorted_replacements :: "(string \<times> efficient) list \<Rightarrow> (string \<times> efficient) list" where
  "sorted_replacements items = sort_key (\<lambda>x. - savings (snd x)) items"

text \<open>\<^verbatim>\<open>re.sub(r"\s+", " ", text)\<close>\<close>

function collapse_ws :: "string \<Rightarrow> string" where
  "collapse_ws [] = []"
| "collapse_ws (c # cs) =
     (if is_space_char c then CHR '' '' # collapse_ws (dropWhile is_space_char cs)
      else c # collapse_ws cs)"
  by pat_completeness auto
termination
  by (relation "measure length") (auto intro: le_imp_less_Suc length_dropWhile_le)

definition is_punct_char :: "char \<Rightarrow> bool" where
  "is_punct_char c = (c \<in> set '',.!?;:'')"

text \<open>
  \<^verbatim>\<open>re.sub(r"\s+([,.!?;:])", r"\1", text)\<close>: the greedy \<^verbatim>\<open>\s+\<close> takes the whole run
  of whitespace, and matches only when one of the six marks follows the run.
\<close>

function strip_before_punct :: "string \<Rightarrow> string" where
  "strip_before_punct [] = []"
| "strip_before_punct (c # cs) =
     (if is_space_char c then
        (case dropWhile is_space_char cs of
           [] \<Rightarrow> c # strip_before_punct cs
         | p # ps \<Rightarrow> if is_punct_char p then p # strip_before_punct ps
                    else c # strip_before_punct cs)
      else c # strip_before_punct cs)"
  by pat_completeness auto
termination
proof (relation "measure length", goal_cases)
  case (3 c cs p ps)
  have "length (dropWhile is_space_char cs) \<le> length cs"
    by (rule length_dropWhile_le)
  with 3 show ?case by simp
qed auto

record report =
  total_tokens_saved :: int
  replacements :: "made list"
  report_original_tokens :: nat
  optimized_tokens :: nat

text \<open>
  \<^verbatim>\<open>optimize_text\<close>. The count \<^verbatim>\<open>optimized_tokens\<close> is taken of the cleaned text before
  \<^verbatim>\<open>strip()\<close>, as the source does.
\<close>

definition optimize_text :: "optimizer \<Rightarrow> string \<Rightarrow> py_error + string \<times> report" where
  "optimize_text self text =
     (case optimize_loop (tokenizer self) (min_savings self)
             (sorted_replacements (token_efficient_map self)) (text, 0, []) of
        Inl e \<Rightarrow> Inl e
      | Inr (optimized_text, saved_total, replacements_made) \<Rightarrow>
          (let cleaned = strip_before_punct (collapse_ws optimized_text)
           in Inr (strip cleaned,
                   \<lparr>total_tokens_saved = saved_total, replacements = replacements_made,
                    report_original_tokens = tokenizer self text,
                    optimized_tokens = tokenizer self cleaned\<rparr>)))"




text \<open>
  The tokenizer of the test suite (\<^verbatim>\<open>tests/conftest.py\<close>, \<^verbatim>\<open>MockTokenizer.encode\<close>):
  one token for every match of \<^verbatim>\<open>\w+|[^\w\s]\<close> in the lower-cased text.
\<close>

function mock_tokens :: "string \<Rightarrow> string list" where
  "mock_tokens [] = []"
| "mock_tokens (c # cs) =
     (if is_word_char c
      then (c # takeWhile is_word_char cs) # mock_tokens (dropWhile is_word_char cs)
      else if \<not> is_space_char c then [c] # mock_tokens cs
      else mock_tokens cs)"
  by pat_completeness auto
termination
  by (relation "measure length") (auto intro: le_imp_less_Suc length_dropWhile_le)

definition mock_count_tokens :: tokenizer where
  "mock_count_tokens text = length (mock_tokens (lower text))"

section \<open>The orchestrator (\<^verbatim>\<open>pipeline.py\<close>)\<close>

text \<open>
  The configuration is the loaded YAML file: \<^verbatim>\<open>config["tokenizer"]["model"]\<close> and, under
  \<^verbatim>\<open>config["pipeline"]\<close>, one mapping for each stage name with its \<^verbatim>\<open>enabled\<close> flag and
  its parameters (already rendered by \<^verbatim>\<open>str\<close>). Subscripting a missing key raises
  \<^verbatim>\<open>KeyError\<close>.
\<close>

record stage_config =
  enabled :: bool
  params :: "string \<rightharpoonup> string"

record config =
  tokenizer_model :: string
  pipeline :: "string \<rightharpoonup> stage_config"

text \<open>
  \<^verbatim>\<open>subprocess.run(cmd, input=..., capture_output=True, text=True)\<close> starts the running
  interpreter on a stage script; what the script does is outside the program, so the
  embedding takes the completed process as a function of the command (the script name and
  its arguments) and the text on standard input. A script that is missing or that raises
  exits with a non-zero status.
\<close>

record completed_process =
  returncode :: int
  stdout :: string
  stderr :: string

type_synonym subprocess = "string list \<Rightarrow> string \<Rightarrow> completed_process"

text \<open>
  A JSON document as \<^verbatim>\<open>json.loads\<close> returns it. \<^verbatim>\<open>json.loads\<close> belongs to the standard
  library; the embedding takes it as a parameter, \<open>None\<close> where it raises
  \<^verbatim>\<open>JSONDecodeError\<close>.
\<close>

datatype json = JNull | JBool bool | JInt int | JFloat real | JString string
  | JArray "json list" | JObject "(string \<times> json) list"

text \<open>
  The diagnostic stream, one value for each \<^verbatim>\<open>print(..., file=sys.stderr)\<close>. Elapsed
  times are not part of the embedding, and the percentage is the exact quotient, not its
  rendering with one decimal.
\<close>

datatype log_line =
    Skipping string
  | StageOk string nat nat int
  | StageFailed string string
  | Starting
  | OriginalText nat nat
  | Separator
  | FinalText nat nat
  | TotalReduction int real
  | Analyzing
  | PotentialHeader
  | PotentialLine json json json json
  | PotentialTotal real
  | NoneFound

definition run_stage :: "tokenizer \<Rightarrow> config \<Rightarrow> subprocess \<Rightarrow> string \<Rightarrow> string \<Rightarrow> string
    \<Rightarrow> string list \<Rightarrow> py_error + string \<times> log_line list" where
  "run_stage tok cfg run stage_name script_name input_text extra_args =
     (case pipeline cfg stage_name of
        None \<Rightarrow> Inl KeyError
      | Some sc \<Rightarrow>
          if \<not> enabled sc then Inr (input_text, [Skipping stage_name])
          else
            (let cmd = script_name # extra_args;
                 result = run cmd input_text
             in if returncode result \<noteq> 0
                then Inr (input_text, [StageFailed stage_name (stderr result)])
                else
                  (let output_text = stdout result;
                       input_tokens = tok input_text;
                       output_tokens = tok output_text
                   in Inr (output_text,
                           [StageOk stage_name input_tokens output_tokens
                              (int input_tokens - int output_tokens)]))))"

definition stage_enabled :: "config \<Rightarrow> string \<Rightarrow> py_error + bool" where
  "stage_enabled cfg stage_name =
     (case pipeline cfg stage_name of None \<Rightarrow> Inl KeyError | Some sc \<Rightarrow> Inr (enabled sc))"

definition stage_param :: "config \<Rightarrow> string \<Rightarrow> string \<Rightarrow> py_error + string" where
  "stage_param cfg stage_name key =
     (case pipeline cfg stage_name of
        None \<Rightarrow> Inl KeyError
      | Some sc \<Rightarrow> (case params sc key of None \<Rightarrow> Inl KeyError | Some v \<Rightarrow> Inr v))"

text \<open>The argument list that \<^verbatim>\<open>run_pipeline\<close> builds for each of its four stages.\<close>

definition stage_args :: "config \<Rightarrow> string \<Rightarrow> py_error + string list" where
  "stage_args cfg stage_name =
     (if stage_name = ''spell_check'' then
        (case stage_param cfg stage_name ''max_edit_distance'' of
           Inl e \<Rightarrow> Inl e | Inr d \<Rightarrow> Inr [''-d'', d])
      else if stage_name = ''abbreviations'' then
        (case stage_param cfg stage_name ''custom_dict_path'' of
           Inl e \<Rightarrow> Inl e | Inr c \<Rightarrow> Inr [''-c'', c])
      else if stage_name = ''token_aware'' then
        (case stage_param cfg stage_name ''min_token_savings'' of
           Inl e \<Rightarrow> Inl e | Inr s \<Rightarrow> Inr [''-m'', tokenizer_model cfg, ''-s'', s])
      else
        (case stage_param cfg stage_name ''model'' of
           Inl e \<Rightarrow> Inl e
         | Inr m \<Rightarrow>
             (case stage_param cfg stage_name ''max_length_ratio'' of
                Inl e \<Rightarrow> Inl e | Inr r \<Rightarrow> Inr [''-m'', m, ''-r'', r])))"

text \<open>
  One of the four blocks of \<^verbatim>\<open>run_pipeline\<close>:
  \<^verbatim>\<open>if config["pipeline"][name]["enabled"]: current_text = self.run_stage(name, script, current_text, args)\<close>.
  The state is \<^verbatim>\<open>current_text\<close> and the lines printed so far.
\<close>

definition pipeline_stage :: "tokenizer \<Rightarrow> config \<Rightarrow> subprocess \<Rightarrow> string \<Rightarrow> string
    \<Rightarrow> string \<times> log_line list \<Rightarrow> py_error + string \<times> log_line list" where
  "pipeline_stage tok cfg run stage_name script_name st =
     (case st of (current_text, printed_so_far) \<Rightarrow>
      (case stage_enabled cfg stage_name of
         Inl e \<Rightarrow> Inl e
       | Inr on \<Rightarrow>
           if on then
             (case stage_args cfg stage_name of
                Inl e \<Rightarrow> Inl e
              | Inr extra_args \<Rightarrow>
                  (case run_stage tok cfg run stage_name script_name current_text extra_args of
                     Inl e \<Rightarrow> Inl e
                   | Inr (t, printed) \<Rightarrow> Inr (t, printed_so_far @ printed)))
           else Inr st))"

definition stages :: "(string \<times> string) list" where
  "stages = [(''spell_check'', ''01_spell_check.py''), (''abbreviations'', ''02_abbreviations.py''),
             (''token_aware'', ''03_token_aware.py''), (''ml_paraphrase'', ''04_ml_paraphrase.py'')]"

fun run_stages :: "tokenizer \<Rightarrow> config \<Rightarrow> subprocess \<Rightarrow> (string \<times> string) list
    \<Rightarrow> string \<times> log_line list \<Rightarrow> py_error + string \<times> log_line list" where
  "run_stages tok cfg run [] st = Inr st"
| "run_stages tok cfg run ((stage_name, script_name) # rest) st =
     (case pipeline_stage tok cfg run stage_name script_name st of
        Inl e \<Rightarrow> Inl e
      | Inr st' \<Rightarrow> run_stages tok cfg run rest st')"

text \<open>
  The final statistics of \<^verbatim>\<open>pipeline.py\<close>:
  \<^verbatim>\<open>(1 - final_tokens/original_tokens) * 100\<close>, where \<^verbatim>\<open>/\<close> raises on a zero divisor.
\<close>

definition final_statistics :: "nat \<Rightarrow> nat \<Rightarrow> py_error + int \<times> real" where
  "final_statistics original final_tokens =
     (if original = 0 then Inl ZeroDivisionError
      else Inr (int original - int final_tokens,
                (1 - real final_tokens / real original) * 100))"

definition run_pipeline :: "tokenizer \<Rightarrow> config \<Rightarrow> subprocess \<Rightarrow> string
    \<Rightarrow> py_error + string \<times> log_line list" where
  "run_pipeline tok cfg run input_text =
     (let original = tok input_text
      in case run_stages tok cfg run stages
                (input_text, [Starting, OriginalText (length input_text) original, Separator]) of
           Inl e \<Rightarrow> Inl e
         | Inr (current_text, printed_so_far) \<Rightarrow>
             (let final_tokens = tok current_text
              in case final_statistics original final_tokens of
                   Inl e \<Rightarrow> Inl e
                 | Inr (reduction, pct) \<Rightarrow>
                     Inr (current_text,
                          printed_so_far @ [Separator, FinalText (length current_text) final_tokens,
                                 TotalReduction reduction pct])))"

text \<open>
  The same statistics in \<^verbatim>\<open>pipeline_verbose.py\<close>:
  \<^verbatim>\<open>(total_reduction / original_tokens * 100) if original_tokens > 0 else 0\<close>.
\<close>

definition verbose_final_statistics :: "nat \<Rightarrow> nat \<Rightarrow> py_error + int \<times> real" where
  "verbose_final_statistics original final_tokens =
     (let total_reduction = int original - int final_tokens;
          reduction_pct = (if original > 0 then real_of_int total_reduction / real original * 100
                           else 0)
      in Inr (total_reduction, reduction_pct))"








text \<open>
  The shape of a configuration file that \<^verbatim>\<open>run_pipeline\<close> reads without a \<^verbatim>\<open>KeyError\<close>:
  the four stages are present, each with the parameters its argument list needs.
\<close>

definition has_params :: "config \<Rightarrow> string \<Rightarrow> string list \<Rightarrow> bool" where
  "has_params cfg stage_name keys =
     (case pipeline cfg stage_name of
        None \<Rightarrow> False
      | Some sc \<Rightarrow> list_all (\<lambda>k. params sc k \<noteq> None) keys)"

definition configured :: "config \<Rightarrow> bool" where
  "configured cfg =
     (has_params cfg ''spell_check'' [''max_edit_distance''] \<and>
      has_params cfg ''abbreviations'' [''custom_dict_path''] \<and>
      has_params cfg ''token_aware'' [''min_token_savings''] \<and>
      has_params cfg ''ml_paraphrase'' [''model'', ''max_length_ratio''])"

text \<open>The configuration of the test suite (\<^verbatim>\<open>tests/conftest.py\<close>, \<^verbatim>\<open>temp_config_file\<close>).\<close>

definition test_config :: config where
  "test_config =
     \<lparr>tokenizer_model = ''gpt2'',
      pipeline =
        [''spell_check'' \<mapsto> \<lparr>enabled = True, params = [''max_edit_distance'' \<mapsto> ''2'']\<rparr>,
         ''abbreviations'' \<mapsto>
            \<lparr>enabled = True, params = [''custom_dict_path'' \<mapsto> ''config/abbreviations.json'']\<rparr>,
         ''token_aware'' \<mapsto> \<lparr>enabled = True, params = [''min_token_savings'' \<mapsto> ''1'']\<rparr>,
         ''ml_paraphrase'' \<mapsto>
            \<lparr>enabled = True, params = [''model'' \<mapsto> ''t5-small'', ''max_length_ratio'' \<mapsto> ''0.8'']\<rparr>]\<rparr>"

section \<open>The build phase\<close>

lemma dict_set_fresh: "k \<notin> fst ` set kvs \<Longrightarrow> dict_set k v kvs = kvs @ [(k, v)]"
  by (induction kvs) auto

lemma build_from_distinct:
  "distinct (map fst acc @ map fst cands) \<Longrightarrow>
   build_from tok ms cands acc =
     acc @ map (\<lambda>(p, r). (p, \<lparr>replacement = r,
                 savings = int (tok p) - int (if r = [] then 0 else tok r),
                 original_tokens = tok p,
                 replacement_tokens = (if r = [] then 0 else tok r)\<rparr>))
            (filter (\<lambda>(p, r). ms \<le> int (tok p) - int (if r = [] then 0 else tok r)) cands)"
proof (induction cands arbitrary: acc)
  case Nil
  then show ?case by simp
next
  case (Cons c cands)
  obtain p r where c: "c = (p, r)" by (cases c)
  from Cons.prems have fresh: "p \<notin> fst ` set acc" and
    d: "\<And>v. distinct (map fst (acc @ [(p, v)]) @ map fst cands)"
    by (auto simp: c)
  from Cons.prems have d0: "distinct (map fst acc @ map fst cands)" by (auto simp: c)
  show ?case
  proof (cases "r = []")
    case True
    then show ?thesis
      using Cons.IH[OF d] Cons.IH[OF d0] fresh by (simp add: c dict_set_fresh Let_def)
  next
    case False
    then show ?thesis
      using Cons.IH[OF d] Cons.IH[OF d0] fresh by (simp add: c dict_set_fresh Let_def)
  qed
qed

lemma distinct_candidates: "distinct (map fst replacement_candidates)"
  unfolding replacement_candidates_def by simp

lemma build_efficient_map_eq:
  "build_efficient_map tok ms =
     map (\<lambda>(p, r). (p, \<lparr>replacement = r,
                 savings = int (tok p) - int (if r = [] then 0 else tok r),
                 original_tokens = tok p,
                 replacement_tokens = (if r = [] then 0 else tok r)\<rparr>))
       (filter (\<lambda>(p, r). ms \<le> int (tok p) - int (if r = [] then 0 else tok r))
          replacement_candidates)"
  unfolding build_efficient_map_def
  using build_from_distinct[of "[]" replacement_candidates tok ms] distinct_candidates
  by simp

text \<open>
  C3. At construction the efficient map holds, in the order of the table, exactly the
  candidates whose savings reach the threshold, where the savings of a candidate are the
  tokens of the bare phrase minus the tokens of the bare replacement and an empty
  replacement counts as zero tokens; each entry records these numbers, and the savings of
  every entry of the built map are at least \<open>min_savings\<close>.
\<close>

theorem build_efficient_map_keeps_saving_candidates:
  "build_efficient_map tok ms =
     map (\<lambda>(p, r). (p, \<lparr>replacement = r,
                 savings = int (tok p) - int (if r = [] then 0 else tok r),
                 original_tokens = tok p,
                 replacement_tokens = (if r = [] then 0 else tok r)\<rparr>))
       (filter (\<lambda>(p, r). ms \<le> int (tok p) - int (if r = [] then 0 else tok r))
          replacement_candidates)
   \<and> list_all (\<lambda>(p, info). ms \<le> savings info) (build_efficient_map tok ms)"
  unfolding build_efficient_map_eq by (auto simp: list_all_iff)

section \<open>Character classes\<close>

text \<open>
  The classes and the case mappings on the bits of a character, as code equations: they
  let the kernel evaluate the scan on concrete text without arithmetic.
\<close>

lemma is_upper_char_code [code]:
  "is_upper_char (Char b0 b1 b2 b3 b4 b5 b6 b7) =
     (\<not> b7 \<and> b6 \<and> \<not> b5 \<and> (b0 \<or> b1 \<or> b2 \<or> b3 \<or> b4) \<and> \<not> (b4 \<and> b3 \<and> (b2 \<or> (b1 \<and> b0))))"
  by (cases b0; cases b1; cases b2; cases b3; cases b4; cases b5; cases b6; cases b7)
     (simp_all add: is_upper_char_def)

lemma is_lower_char_code [code]:
  "is_lower_char (Char b0 b1 b2 b3 b4 b5 b6 b7) =
     (\<not> b7 \<and> b6 \<and> b5 \<and> (b0 \<or> b1 \<or> b2 \<or> b3 \<or> b4) \<and> \<not> (b4 \<and> b3 \<and> (b2 \<or> (b1 \<and> b0))))"
  by (cases b0; cases b1; cases b2; cases b3; cases b4; cases b5; cases b6; cases b7)
     (simp_all add: is_lower_char_def)

lemma is_digit_char_code [code]:
  "is_digit_char (Char b0 b1 b2 b3 b4 b5 b6 b7) =
     (\<not> b7 \<and> \<not> b6 \<and> b5 \<and> b4 \<and> \<not> (b3 \<and> (b2 \<or> b1)))"
  by (cases b0; cases b1; cases b2; cases b3; cases b4; cases b5; cases b6; cases b7)
     (simp_all add: is_digit_char_def)

lemma is_space_char_code [code]:
  "is_space_char (Char b0 b1 b2 b3 b4 b5 b6 b7) =
     (\<not> b7 \<and> \<not> b6 \<and>
      ((\<not> b5 \<and> \<not> b4 \<and> b3 \<and> (if b2 then \<not> b1 else b0 \<or> b1))
       \<or> (\<not> b5 \<and> b4 \<and> b3 \<and> b2)
       \<or> (b5 \<and> \<not> b4 \<and> \<not> b3 \<and> \<not> b2 \<and> \<not> b1 \<and> \<not> b0)))"
  by (cases b0; cases b1; cases b2; cases b3; cases b4; cases b5; cases b6; cases b7)
     (simp_all add: is_space_char_def)

lemma to_lower_code [code]:
  "to_lower (Char b0 b1 b2 b3 b4 b5 b6 b7) =
     (if is_upper_char (Char b0 b1 b2 b3 b4 b5 b6 b7) then Char b0 b1 b2 b3 b4 True b6 b7
      else Char b0 b1 b2 b3 b4 b5 b6 b7)"
  by (cases b0; cases b1; cases b2; cases b3; cases b4; cases b5; cases b6; cases b7)
     (simp_all add: to_lower_def is_upper_char_def char_of_def bit_0)

lemma to_upper_code [code]:
  "to_upper (Char b0 b1 b2 b3 b4 b5 b6 b7) =
     (if is_lower_char (Char b0 b1 b2 b3 b4 b5 b6 b7) then Char b0 b1 b2 b3 b4 False b6 b7
      else Char b0 b1 b2 b3 b4 b5 b6 b7)"
  by (cases b0; cases b1; cases b2; cases b3; cases b4; cases b5; cases b6; cases b7)
     (simp_all add: to_upper_def is_lower_char_def char_of_def bit_0)

lemma of_char_to_lower:
  "(of_char (to_lower c) :: nat) = (if is_upper_char c then of_char c + 32 else of_char c)"
  by (simp add: to_lower_def is_upper_char_def)

lemma of_char_to_upper:
  "(of_char (to_upper c) :: nat) = (if is_lower_char c then of_char c - 32 else of_char c)"
  by (auto simp add: to_upper_def is_lower_char_def)




lemma to_upper_lower: "to_lower (to_upper c) = to_lower c"
proof -
  have "(of_char (to_lower (to_upper c)) :: nat) = of_char (to_lower c)"
    unfolding of_char_to_lower of_char_to_upper is_upper_char_def is_lower_char_def
    by (auto split: if_splits)
  then show ?thesis by (simp only: of_char_eq_iff)
qed

section \<open>The scan\<close>

lemma take_nonempty: "p \<noteq> [] \<Longrightarrow> literal_at p s \<Longrightarrow> take (length p) s \<noteq> []"
  by (cases s) (auto simp: literal_at_def)

lemma scan_text:
  "concat (map (\<lambda>x. case x of Gap c \<Rightarrow> [c] | Hit m \<Rightarrow> m) (scan p prev s)) = s"
proof (induction p prev s rule: scan.induct)
  case (1 p prev)
  then show ?case by simp
next
  case (2 p prev c cs)
  show ?case
  proof (cases "match_here p prev (c # cs)")
    case False
    with 2 show ?thesis by simp
  next
    case m: True
    show ?thesis
    proof (cases "p = []")
      case True
      with m 2 show ?thesis by simp
    next
      case False
      with m 2(2) have "concat (map (\<lambda>x. case x of Gap c \<Rightarrow> [c] | Hit m \<Rightarrow> m)
          (scan p (last_char prev (take (length p) (c # cs))) (drop (length p) (c # cs))))
          = drop (length p) (c # cs)" by simp
      with m False show ?thesis
        by (simp del: take_Suc_Cons drop_Suc_Cons add: append_take_drop_id)
          
    qed
  qed
qed

lemma scan_hit:
  "p \<noteq> [] \<Longrightarrow> Hit m \<in> set (scan p prev s) \<Longrightarrow> lower m = lower p \<and> length m = length p"
proof (induction p prev s rule: scan.induct)
  case (1 p prev)
  then show ?case by (simp add: match_here_def literal_at_def)
next
  case (2 p prev c cs)
  note ne = \<open>p \<noteq> []\<close>
  show ?case
  proof (cases "match_here p prev (c # cs)")
    case False
    with 2 show ?thesis by simp
  next
    case True
    then have lit: "literal_at p (c # cs)" by (simp add: match_here_def)
    from True ne have unf: "scan p prev (c # cs) =
        Hit (take (length p) (c # cs))
          # scan p (last_char prev (take (length p) (c # cs))) (drop (length p) (c # cs))"
      by (simp del: take_Suc_Cons drop_Suc_Cons)
    from "2.prems"(2) have
      "m = take (length p) (c # cs) \<or>
       Hit m \<in> set (scan p (last_char prev (take (length p) (c # cs))) (drop (length p) (c # cs)))"
      unfolding unf by simp
    then show ?thesis
    proof
      assume "m = take (length p) (c # cs)"
      with lit show ?thesis by (simp add: literal_at_def del: take_Suc_Cons)
    next
      assume "Hit m \<in> set (scan p (last_char prev (take (length p) (c # cs))) (drop (length p) (c # cs)))"
      with "2.IH"(2)[OF True ne ne] show ?thesis by simp
    qed
  qed
qed

lemma scan_hit_nonempty: "p \<noteq> [] \<Longrightarrow> Hit m \<in> set (scan p prev s) \<Longrightarrow> m \<noteq> []"
  using scan_hit[of p m prev s] by (cases m) auto

lemma replace_func_nonempty:
  "m \<noteq> [] \<Longrightarrow>
   replace_func r m =
     Inr (if r = [] then []
          else if isupper m \<and> 1 < length r then upper r
          else if is_upper_char (hd m) \<and> 1 < length r then upper (take 1 r) @ drop 1 r
          else r)"
  by (cases m) (simp_all add: replace_func_def)

lemma sub_pieces_policy:
  "(\<And>m. Hit m \<in> set ps \<Longrightarrow> m \<noteq> []) \<Longrightarrow>
   sub_pieces (replace_func r) ps =
     Inr (concat (map (\<lambda>x. case x of Gap c \<Rightarrow> [c]
       | Hit m \<Rightarrow> (if r = [] then []
                   else if isupper m \<and> 1 < length r then upper r
                   else if is_upper_char (hd m) \<and> 1 < length r then upper (take 1 r) @ drop 1 r
                   else r)) ps))"
proof (induction ps)
  case Nil
  then show ?case by simp
next
  case (Cons x ps)
  then have ih: "sub_pieces (replace_func r) ps =
     Inr (concat (map (\<lambda>x. case x of Gap c \<Rightarrow> [c]
       | Hit m \<Rightarrow> (if r = [] then []
                   else if isupper m \<and> 1 < length r then upper r
                   else if is_upper_char (hd m) \<and> 1 < length r then upper (take 1 r) @ drop 1 r
                   else r)) ps))" by simp
  show ?case
  proof (cases x)
    case (Gap c)
    with ih show ?thesis by simp
  next
    case (Hit m)
    with Cons.prems have "m \<noteq> []" by simp
    from replace_func_nonempty[OF this, of r] Hit ih show ?thesis by simp
  qed
qed

lemma hits_Nil_iff: "hits ps = [] \<longleftrightarrow> (\<forall>m. Hit m \<notin> set ps)"
  by (induction ps) (auto simp: hits_def split: piece.splits)

lemma sub_pieces_no_hit:
  "hits ps = [] \<Longrightarrow>
   sub_pieces f ps = Inr (concat (map (\<lambda>x. case x of Gap c \<Rightarrow> [c] | Hit m \<Rightarrow> m) ps))"
proof (induction ps)
  case Nil
  then show ?case by simp
next
  case (Cons x ps)
  then show ?case by (cases x) (auto simp: hits_def)
qed

lemma sub_func_no_match: "findall p text = [] \<Longrightarrow> sub_func p f text = Inr text"
  by (simp add: findall_def sub_func_def sub_pieces_no_hit scan_text)

lemma lower_Cons: "lower (a # as) = to_lower a # lower as" by (simp add: lower_def)






lemma candidates_wordy:
  "list_all (\<lambda>(p, r). p \<noteq> [] \<and> is_word_char (hd p) \<and> is_word_char (last p))
     replacement_candidates"
  by code_simp

section \<open>Substitution and the case policy\<close>

lemma sub_func_policy:
  "p \<noteq> [] \<Longrightarrow>
   sub_func p (replace_func r) text =
     Inr (concat (map (\<lambda>x. case x of Gap c \<Rightarrow> [c]
       | Hit m \<Rightarrow> (if isupper m \<and> 1 < length r then upper r
                   else if is_upper_char (hd m) \<and> 1 < length r then upper (take 1 r) @ drop 1 r
                   else r)) (scan p None text)))"
proof -
  assume ne: "p \<noteq> []"
  have "sub_func p (replace_func r) text =
     Inr (concat (map (\<lambda>x. case x of Gap c \<Rightarrow> [c]
       | Hit m \<Rightarrow> (if r = [] then []
                   else if isupper m \<and> 1 < length r then upper r
                   else if is_upper_char (hd m) \<and> 1 < length r then upper (take 1 r) @ drop 1 r
                   else r)) (scan p None text)))"
    unfolding sub_func_def using scan_hit_nonempty[OF ne] by (rule sub_pieces_policy)
  also have "(\<lambda>x. case x of Gap c \<Rightarrow> [c]
       | Hit m \<Rightarrow> (if r = [] then []
                   else if isupper m \<and> 1 < length r then upper r
                   else if is_upper_char (hd m) \<and> 1 < length r then upper (take 1 r) @ drop 1 r
                   else r)) = (\<lambda>x. case x of Gap c \<Rightarrow> [c]
       | Hit m \<Rightarrow> (if isupper m \<and> 1 < length r then upper r
                   else if is_upper_char (hd m) \<and> 1 < length r then upper (take 1 r) @ drop 1 r
                   else r))"
    by (cases "r = []") (auto simp: fun_eq_iff split: piece.splits)
  finally show ?thesis .
qed


lemma candidate_wordy:
  "(p, r) \<in> set replacement_candidates \<Longrightarrow>
   p \<noteq> [] \<and> is_word_char (hd p) \<and> is_word_char (last p)"
  using candidates_wordy by (auto simp: list_all_iff)





section \<open>The orchestrator: stage failures and the final statistics\<close>

lemma run_stage_returns:
  "pipeline cfg stage_name = Some sc \<Longrightarrow>
   \<exists>t printed. run_stage tok cfg run stage_name script_name input_text extra_args = Inr (t, printed)"
  by (simp add: run_stage_def Let_def)

lemma has_params_stage_param:
  "has_params cfg stage_name keys \<Longrightarrow> k \<in> set keys \<Longrightarrow> \<exists>v. stage_param cfg stage_name k = Inr v"
  by (auto simp: has_params_def stage_param_def list_all_iff split: option.splits)

lemma has_params_stage:
  "has_params cfg stage_name keys \<Longrightarrow> \<exists>sc. pipeline cfg stage_name = Some sc"
  by (auto simp: has_params_def split: option.splits)

lemma stage_args_cases:
  "stage_args cfg ''spell_check'' =
     (case stage_param cfg ''spell_check'' ''max_edit_distance'' of
           Inl e \<Rightarrow> Inl e | Inr d \<Rightarrow> Inr [''-d'', d])"
  "stage_args cfg ''abbreviations'' =
        (case stage_param cfg ''abbreviations'' ''custom_dict_path'' of
           Inl e \<Rightarrow> Inl e | Inr c \<Rightarrow> Inr [''-c'', c])"
  "stage_args cfg ''token_aware'' =
        (case stage_param cfg ''token_aware'' ''min_token_savings'' of
           Inl e \<Rightarrow> Inl e | Inr s \<Rightarrow> Inr [''-m'', tokenizer_model cfg, ''-s'', s])"
  "stage_args cfg ''ml_paraphrase'' =
        (case stage_param cfg ''ml_paraphrase'' ''model'' of
           Inl e \<Rightarrow> Inl e
         | Inr m \<Rightarrow>
             (case stage_param cfg ''ml_paraphrase'' ''max_length_ratio'' of
                Inl e \<Rightarrow> Inl e | Inr r \<Rightarrow> Inr [''-m'', m, ''-r'', r]))"
  by (simp_all add: stage_args_def)

lemma configured_stage:
  assumes "configured cfg" "(stage_name, script_name) \<in> set stages"
  shows "\<exists>sc extra_args. pipeline cfg stage_name = Some sc \<and> stage_args cfg stage_name = Inr extra_args"
proof -
  from assms(1) have
    h1: "has_params cfg ''spell_check'' [''max_edit_distance'']" and
    h2: "has_params cfg ''abbreviations'' [''custom_dict_path'']" and
    h3: "has_params cfg ''token_aware'' [''min_token_savings'']" and
    h4: "has_params cfg ''ml_paraphrase'' [''model'', ''max_length_ratio'']"
    unfolding configured_def by simp_all
  from assms(2) consider "stage_name = ''spell_check''" | "stage_name = ''abbreviations''"
    | "stage_name = ''token_aware''" | "stage_name = ''ml_paraphrase''"
    unfolding stages_def by auto
  then show ?thesis
  proof cases
    case 1
    from has_params_stage_param[OF h1, of "''max_edit_distance''"]
    obtain v where "stage_param cfg ''spell_check'' ''max_edit_distance'' = Inr v" by auto
    with has_params_stage[OF h1] 1 show ?thesis by (simp add: stage_args_cases(1))
  next
    case 2
    from has_params_stage_param[OF h2, of "''custom_dict_path''"]
    obtain v where "stage_param cfg ''abbreviations'' ''custom_dict_path'' = Inr v" by auto
    with has_params_stage[OF h2] 2 show ?thesis by (simp add: stage_args_cases(2))
  next
    case 3
    from has_params_stage_param[OF h3, of "''min_token_savings''"]
    obtain v where "stage_param cfg ''token_aware'' ''min_token_savings'' = Inr v" by auto
    with has_params_stage[OF h3] 3 show ?thesis by (simp add: stage_args_cases(3))
  next
    case 4
    from has_params_stage_param[OF h4, of "''model''"]
    obtain v where v: "stage_param cfg ''ml_paraphrase'' ''model'' = Inr v" by auto
    from has_params_stage_param[OF h4, of "''max_length_ratio''"]
    obtain w where "stage_param cfg ''ml_paraphrase'' ''max_length_ratio'' = Inr w" by auto
    with v has_params_stage[OF h4] 4 show ?thesis by (simp add: stage_args_cases(4))
  qed
qed

lemma pipeline_stage_returns:
  assumes "configured cfg" "(stage_name, script_name) \<in> set stages"
  shows "\<exists>st'. pipeline_stage tok cfg run stage_name script_name st = Inr st'"
proof -
  from configured_stage[OF assms] obtain sc extra_args where
    sc: "pipeline cfg stage_name = Some sc" and a: "stage_args cfg stage_name = Inr extra_args"
    by blast
  obtain current_text printed where st: "st = (current_text, printed)" by (cases st)
  from run_stage_returns[OF sc] obtain t pr where
    "run_stage tok cfg run stage_name script_name current_text extra_args = Inr (t, pr)"
    by blast
  then show ?thesis
    by (simp add: pipeline_stage_def st stage_enabled_def sc a)
qed

lemma run_stages_returns:
  assumes "configured cfg"
  shows "set ss \<subseteq> set stages \<Longrightarrow> \<exists>st'. run_stages tok cfg run ss st = Inr st'"
proof (induction ss arbitrary: st)
  case Nil
  then show ?case by simp
next
  case (Cons s ss)
  obtain stage_name script_name where s: "s = (stage_name, script_name)" by (cases s)
  with Cons.prems have "(stage_name, script_name) \<in> set stages" by simp
  from pipeline_stage_returns[OF assms this] obtain st' where
    "pipeline_stage tok cfg run stage_name script_name st = Inr st'" by blast
  moreover from Cons.prems have "set ss \<subseteq> set stages" by simp
  from Cons.IH[OF this] obtain st'' where "run_stages tok cfg run ss st' = Inr st''" by blast
  ultimately show ?case by (simp add: s)
qed

lemma run_pipeline_zero_tokens:
  assumes "configured cfg" "tok input_text = 0"
  shows "run_pipeline tok cfg run input_text = Inl ZeroDivisionError"
proof -
  from run_stages_returns[OF assms(1) subset_refl] obtain current_text printed where
    "run_stages tok cfg run stages
       (input_text, [Starting, OriginalText (length input_text) (tok input_text), Separator])
     = Inr (current_text, printed)"
    by (metis surj_pair)
  with assms(2) show ?thesis
    by (simp add: run_pipeline_def final_statistics_def Let_def)
qed


lemma configured_test_config: "configured test_config"
  by code_simp

lemma verbose_statistics_zero: "verbose_final_statistics 0 n = Inr (- int n, 0)"
  by (simp add: verbose_final_statistics_def)


text \<open>
  C1. The final statistics of \<^verbatim>\<open>run_pipeline\<close> divide by the token count of the input.
  On the empty text, which the tokenizer of the test suite counts as zero tokens, the
  pipeline ends in \<^verbatim>\<open>ZeroDivisionError\<close> whatever the stages do, where
  \<^verbatim>\<open>pipeline_verbose.py\<close> reports a reduction of 0 percent
  (\<open>verbose_statistics_zero\<close>).
\<close>

theorem run_pipeline_empty_input_raises:
  "run_pipeline mock_count_tokens test_config run [] = Inl ZeroDivisionError"
proof -
  have "mock_count_tokens [] = 0" by code_simp
  with configured_test_config show ?thesis by (rule run_pipeline_zero_tokens)
qed






section \<open>Whole-word matches\<close>








section \<open>The loop of \<^verbatim>\<open>optimize_text\<close>\<close>

lemma optimize_step_no_match:
  "findall p text = [] \<Longrightarrow>
   optimize_step tok ms (p, info) (text, saved, made) = Inr (text, saved, made)"
  by (simp add: optimize_step_def)

lemma optimize_loop_no_match:
  "list_all (\<lambda>(p, info). findall p text = []) es \<Longrightarrow>
   optimize_loop tok ms es (text, saved, made) = Inr (text, saved, made)"
  by (induction es) (auto simp: optimize_step_no_match)

lemma sorted_replacements_set: "set (sorted_replacements em) = set em"
  by (simp add: sorted_replacements_def)

lemma efficient_phrases:
  "(p, info) \<in> set (build_efficient_map tok ms) \<Longrightarrow> (p, replacement info) \<in> set replacement_candidates"
  unfolding build_efficient_map_eq by auto


lemma optimize_step_returns:
  assumes "p \<noteq> []"
  shows "\<exists>t s md. optimize_step tok ms (p, info) (text, saved, made) = Inr (t, s, md) \<and>
           ((t, s, md) = (text, saved, made) \<or> (\<exists>x. md = made @ [x]))"
  by (cases "findall p text")
     (simp_all add: optimize_step_def sub_func_policy[OF assms] Let_def)

lemma optimize_loop_returns:
  "list_all (\<lambda>(p, info). p \<noteq> []) es \<Longrightarrow>
   \<exists>t s ext. optimize_loop tok ms es (text, saved, made) = Inr (t, s, made @ ext) \<and>
             (ext = [] \<longrightarrow> t = text \<and> s = saved)"
proof (induction es arbitrary: "text" saved made)
  case Nil
  then show ?case by simp
next
  case (Cons e es)
  obtain p info where e: "e = (p, info)" by (cases e)
  with Cons.prems have ne: "p \<noteq> []" and rest: "list_all (\<lambda>(p, info). p \<noteq> []) es" by simp_all
  from optimize_step_returns[OF ne, of tok ms info "text" saved made] obtain t s md where
    st: "optimize_step tok ms (p, info) (text, saved, made) = Inr (t, s, md)" and
    alt: "(t, s, md) = (text, saved, made) \<or> (\<exists>x. md = made @ [x])" by blast
  from Cons.IH[OF rest, of t s md] obtain t' s' ext where
    lp: "optimize_loop tok ms es (t, s, md) = Inr (t', s', md @ ext)" and
    un: "ext = [] \<longrightarrow> t' = t \<and> s' = s" by blast
  from alt show ?case
  proof
    assume "(t, s, md) = (text, saved, made)"
    with st lp un show ?thesis by (auto simp: e)
  next
    assume "\<exists>x. md = made @ [x]"
    then obtain x where "md = made @ [x]" by blast
    with st lp have "optimize_loop tok ms (e # es) (text, saved, made)
        = Inr (t', s', made @ (x # ext))" by (simp add: e)
    then show ?thesis by blast
  qed
qed

lemma efficient_map_nonempty_phrases:
  "list_all (\<lambda>(p, info). p \<noteq> []) (sorted_replacements (build_efficient_map tok ms))"
  using efficient_phrases[of _ _ tok ms] candidate_wordy
  by (fastforce simp: list_all_iff sorted_replacements_set)

lemma optimize_text_returns:
  "\<exists>buffer saved made.
     optimize_loop tok ms (sorted_replacements (build_efficient_map tok ms)) (text, 0, [])
       = Inr (buffer, saved, made) \<and>
     (made = [] \<longrightarrow> buffer = text) \<and>
     optimize_text (TokenAwareOptimizer tok ms) text =
       Inr (strip (strip_before_punct (collapse_ws buffer)),
            \<lparr>total_tokens_saved = saved, replacements = made,
             report_original_tokens = tok text,
             optimized_tokens = tok (strip_before_punct (collapse_ws buffer))\<rparr>)"
proof -
  from optimize_loop_returns[OF efficient_map_nonempty_phrases, of tok ms tok ms "text" 0 "[]"]
  obtain t s ext where
    "optimize_loop tok ms (sorted_replacements (build_efficient_map tok ms)) (text, 0, [])
       = Inr (t, s, ext)" and "ext = [] \<longrightarrow> t = text \<and> s = 0" by auto
  then show ?thesis
    by (auto simp: optimize_text_def TokenAwareOptimizer_def Let_def)
qed





section \<open>The analyze operation\<close>




section \<open>The final cleanup\<close>

lemma punct_not_space: "is_punct_char p \<Longrightarrow> \<not> is_space_char p"
  by (auto simp: is_punct_char_def is_space_char_def)

lemma hd_dropWhile_not: "dropWhile P xs = [] \<or> \<not> P (hd (dropWhile P xs))"
  using hd_dropWhile[of P xs] by blast

lemma collapse_ws_hd:
  "s = [] \<or> \<not> is_space_char (hd s) \<Longrightarrow>
   collapse_ws s = [] \<or> \<not> is_space_char (hd (collapse_ws s))"
  by (cases s) auto

lemma collapse_ws_no_runs:
  "successively (\<lambda>a b. \<not> (is_space_char a \<and> is_space_char b)) (collapse_ws s)"
proof (induction s rule: collapse_ws.induct)
  case 1
  then show ?case by simp
next
  case (2 c cs)
  show ?case
  proof (cases "is_space_char c")
    case True
    from collapse_ws_hd[OF hd_dropWhile_not[of is_space_char cs]] 2(1)[OF True] True
    show ?thesis by (auto simp: successively_Cons)
  next
    case False
    with 2(2) show ?thesis by (auto simp: successively_Cons)
  qed
qed

lemma collapse_ws_spaces:
  "c \<in> set (collapse_ws s) \<Longrightarrow> is_space_char c \<Longrightarrow> c = CHR '' ''"
proof (induction s rule: collapse_ws.induct)
  case 1
  then show ?case by simp
next
  case (2 d ds)
  then show ?case by (auto split: if_splits)
qed

lemma strip_before_punct_set: "set (strip_before_punct t) \<subseteq> set t"
proof (induction t rule: strip_before_punct.induct)
  case 1
  then show ?case by simp
next
  case (2 c cs)
  show ?case
  proof (cases "is_space_char c")
    case False
    with 2(4)[OF False] show ?thesis by auto
  next
    case sp: True
    show ?thesis
    proof (cases "dropWhile is_space_char cs")
      case Nil
      with sp have "strip_before_punct (c # cs) = c # strip_before_punct cs"
        by (simp del: dropWhile_eq_Nil_conv)
      with 2(1)[OF sp Nil] show ?thesis by auto
    next
      case (Cons p ps)
      have sub: "set (p # ps) \<subseteq> set cs"
        unfolding Cons[symmetric] by (auto dest: set_dropWhileD)
      show ?thesis
      proof (cases "is_punct_char p")
        case True
        with sp Cons have "strip_before_punct (c # cs) = p # strip_before_punct ps" by simp
        with 2(2)[OF sp Cons True] sub show ?thesis by auto
      next
        case False
        with sp Cons have "strip_before_punct (c # cs) = c # strip_before_punct cs" by simp
        with 2(3)[OF sp Cons False] show ?thesis by auto
      qed
    qed
  qed
qed

lemma strip_before_punct_Cons:
  "\<not> is_space_char p \<Longrightarrow> strip_before_punct (p # ps) = p # strip_before_punct ps"
  by simp

lemma strip_before_punct_clean:
  "successively (\<lambda>a b. \<not> (is_space_char a \<and> is_space_char b)) t \<Longrightarrow>
   successively (\<lambda>a b. is_space_char a \<longrightarrow> \<not> is_space_char b \<and> \<not> is_punct_char b)
     (strip_before_punct t)"
proof (induction t rule: strip_before_punct.induct)
  case 1
  then show ?case by simp
next
  case (2 c cs)
  from "2.prems" have q: "successively (\<lambda>a b. \<not> (is_space_char a \<and> is_space_char b)) cs"
    by (auto simp: successively_Cons)
  show ?case
  proof (cases "is_space_char c")
    case False
    with "2.IH"(4)[OF False q] show ?thesis by (auto simp: successively_Cons)
  next
    case sp: True
    show ?thesis
    proof (cases cs)
      case Nil
      with sp show ?thesis by simp
    next
      case (Cons p ps)
      with "2.prems" sp have np: "\<not> is_space_char p" by simp
      with Cons have dw: "dropWhile is_space_char cs = p # ps" by simp
      from q Cons have qps: "successively (\<lambda>a b. \<not> (is_space_char a \<and> is_space_char b)) ps"
        by (auto simp: successively_Cons)
      show ?thesis
      proof (cases "is_punct_char p")
        case True
        from "2.IH"(2)[OF sp dw True qps] sp dw True np show ?thesis
          by (auto simp: successively_Cons)
      next
        case False
        from "2.IH"(3)[OF sp dw False q] sp dw False np Cons show ?thesis
          by (auto simp: successively_Cons)
      qed
    qed
  qed
qed

lemma successively_dropWhile: "successively P xs \<Longrightarrow> successively P (dropWhile f xs)"
  by (induction xs) (auto simp: successively_Cons)

lemma last_dropWhile_eq: "dropWhile f xs \<noteq> [] \<Longrightarrow> last (dropWhile f xs) = last xs"
  by (induction xs) (auto split: if_splits)

lemma strip_set: "set (strip t) \<subseteq> set t"
  unfolding strip_def by (auto dest!: set_dropWhileD)

lemma strip_successively: "successively P t \<Longrightarrow> successively P (strip t)"
  unfolding strip_def by (simp add: successively_dropWhile)

lemma strip_ends:
  "strip t \<noteq> [] \<Longrightarrow> \<not> is_space_char (hd (strip t)) \<and> \<not> is_space_char (last (strip t))"
proof -
  define u where "u = dropWhile is_space_char t"
  define v where "v = dropWhile is_space_char (rev u)"
  assume "strip t \<noteq> []"
  then have v: "v \<noteq> []" by (simp add: strip_def u_def v_def)
  then have u: "u \<noteq> []" by (auto simp: v_def)
  have "last (strip t) = hd v" using v by (simp add: strip_def u_def v_def last_rev)
  moreover have "\<not> is_space_char (hd v)" using v hd_dropWhile[of is_space_char "rev u"]
    by (simp add: v_def)
  moreover have "hd (strip t) = last v" using v by (simp add: strip_def u_def v_def hd_rev)
  moreover have "last v = last (rev u)" using v unfolding v_def by (rule last_dropWhile_eq)
  moreover have "last (rev u) = hd u" using u by (simp add: last_rev)
  moreover have "\<not> is_space_char (hd u)" using u hd_dropWhile[of is_space_char t]
    by (simp add: u_def)
  ultimately show ?thesis by simp
qed

lemma cleanup_clean:
  fixes b :: string
  defines "out \<equiv> strip (strip_before_punct (collapse_ws b))"
  shows "(\<forall>c\<in>set out. is_space_char c \<longrightarrow> c = CHR '' '')
     \<and> successively (\<lambda>a b. is_space_char a \<longrightarrow> \<not> is_space_char b \<and> \<not> is_punct_char b) out
     \<and> (out \<noteq> [] \<longrightarrow> \<not> is_space_char (hd out) \<and> \<not> is_space_char (last out))"
proof -
  have "set out \<subseteq> set (collapse_ws b)"
    unfolding out_def using strip_set strip_before_punct_set by blast
  then have 1: "\<forall>c\<in>set out. is_space_char c \<longrightarrow> c = CHR '' ''"
    using collapse_ws_spaces by blast
  have 2: "successively (\<lambda>a b. is_space_char a \<longrightarrow> \<not> is_space_char b \<and> \<not> is_punct_char b) out"
    unfolding out_def
    by (intro strip_successively strip_before_punct_clean collapse_ws_no_runs)
  from 1 2 strip_ends[of "strip_before_punct (collapse_ws b)"] show ?thesis
    unfolding out_def by blast
qed

lemma collapse_ws_fixed:
  "(\<forall>c\<in>set t. is_space_char c \<longrightarrow> c = CHR '' '') \<Longrightarrow>
   successively (\<lambda>a b. \<not> (is_space_char a \<and> is_space_char b)) t \<Longrightarrow> collapse_ws t = t"
proof (induction t rule: collapse_ws.induct)
  case 1
  then show ?case by simp
next
  case (2 c cs)
  from "2.prems" have q: "successively (\<lambda>a b. \<not> (is_space_char a \<and> is_space_char b)) cs"
    and s: "\<forall>c\<in>set cs. is_space_char c \<longrightarrow> c = CHR '' ''"
    by (auto simp: successively_Cons)
  show ?case
  proof (cases "is_space_char c")
    case False
    with "2.IH"(2)[OF False s q] show ?thesis by simp
  next
    case True
    with "2.prems" have c: "c = CHR '' ''" by simp
    from True "2.prems"(2) have "cs = [] \<or> \<not> is_space_char (hd cs)"
      by (auto simp: successively_Cons)
    then have dw: "dropWhile is_space_char cs = cs" by (cases cs) auto
    from "2.IH"(1)[OF True] s q dw have "collapse_ws cs = cs" by simp
    with True c dw show ?thesis by simp
  qed
qed

lemma strip_before_punct_fixed:
  "successively (\<lambda>a b. is_space_char a \<longrightarrow> \<not> is_space_char b \<and> \<not> is_punct_char b) t \<Longrightarrow>
   strip_before_punct t = t"
proof (induction t rule: strip_before_punct.induct)
  case 1
  then show ?case by simp
next
  case (2 c cs)
  from "2.prems" have r:
    "successively (\<lambda>a b. is_space_char a \<longrightarrow> \<not> is_space_char b \<and> \<not> is_punct_char b) cs"
    by (auto simp: successively_Cons)
  show ?case
  proof (cases "is_space_char c")
    case False
    with "2.IH"(4)[OF False r] show ?thesis by simp
  next
    case sp: True
    show ?thesis
    proof (cases cs)
      case Nil
      with sp show ?thesis by simp
    next
      case (Cons p ps)
      with "2.prems" sp have np: "\<not> is_space_char p" "\<not> is_punct_char p" by simp_all
      with Cons have dw: "dropWhile is_space_char cs = p # ps" by simp
      from "2.IH"(3)[OF sp dw np(2) r] sp dw np show ?thesis by simp
    qed
  qed
qed

lemma strip_fixed:
  "t = [] \<or> (\<not> is_space_char (hd t) \<and> \<not> is_space_char (last t)) \<Longrightarrow> strip t = t"
proof (cases t)
  case Nil
  then show ?thesis by (simp add: strip_def)
next
  case (Cons a as)
  assume "t = [] \<or> (\<not> is_space_char (hd t) \<and> \<not> is_space_char (last t))"
  with Cons have h: "\<not> is_space_char a" and l: "\<not> is_space_char (last t)" by simp_all
  from h Cons have 1: "dropWhile is_space_char t = t" by simp
  from Cons have "rev t \<noteq> []" by simp
  then obtain b bs where rv: "rev t = b # bs" by (cases "rev t") auto
  then have "b = last t" by (metis Cons hd_rev list.discI list.sel(1))
  with l have "\<not> is_space_char b" by simp
  then have "dropWhile is_space_char (b # bs) = b # bs" by simp
  then have "dropWhile is_space_char (rev t) = rev t" by (simp only: rv)
  with 1 show ?thesis by (simp add: strip_def)
qed

lemma successively_weaken:
  "successively (\<lambda>a b. is_space_char a \<longrightarrow> \<not> is_space_char b \<and> \<not> is_punct_char b) t \<Longrightarrow>
   successively (\<lambda>a b. \<not> (is_space_char a \<and> is_space_char b)) t"
  by (erule successively_mono) auto

lemma cleanup_fixed:
  assumes "\<forall>c\<in>set t. is_space_char c \<longrightarrow> c = CHR '' ''"
    and "successively (\<lambda>a b. is_space_char a \<longrightarrow> \<not> is_space_char b \<and> \<not> is_punct_char b) t"
    and "t \<noteq> [] \<longrightarrow> \<not> is_space_char (hd t) \<and> \<not> is_space_char (last t)"
  shows "strip_before_punct (collapse_ws t) = t" "strip t = t"
proof -
  from collapse_ws_fixed[OF assms(1) successively_weaken[OF assms(2)]]
    strip_before_punct_fixed[OF assms(2)]
  show "strip_before_punct (collapse_ws t) = t" by simp
  from assms(3) show "strip t = t" by (intro strip_fixed) blast
qed

lemma optimize_text_no_efficient_match:
  assumes "list_all (\<lambda>(p, info). findall p text = []) (token_efficient_map self)"
  shows "optimize_text self text =
     Inr (strip (strip_before_punct (collapse_ws text)),
          \<lparr>total_tokens_saved = 0, replacements = [],
           report_original_tokens = tokenizer self text,
           optimized_tokens = tokenizer self (strip_before_punct (collapse_ws text))\<rparr>)"
proof -
  from assms have "list_all (\<lambda>(p, info). findall p text = [])
      (sorted_replacements (token_efficient_map self))"
    by (simp add: list_all_iff sorted_replacements_set)
  from optimize_loop_no_match[OF this]
  show ?thesis by (simp add: optimize_text_def Let_def)
qed



section \<open>A second run\<close>

text \<open>
  C7, as the claim states it, fails. With the tokenizer of the test suite and a threshold
  of 1, the first run turns \<^verbatim>\<open>going  to\<close> (two spaces) into \<^verbatim>\<open>going to\<close> without any
  replacement, and the second run finds the phrase and replaces it; the first run turns
  \<^verbatim>\<open>and/and/or\<close> into \<^verbatim>\<open>and/or\<close>, where its own replacement completes the phrase again,
  and the second run replaces that.
\<close>

theorem second_run_records_replacements:
  "optimize_text (TokenAwareOptimizer mock_count_tokens 1) ''going  to'' =
     Inr (''going to'',
          \<lparr>total_tokens_saved = 0, replacements = [], report_original_tokens = 2,
           optimized_tokens = 2\<rparr>)
   \<and> optimize_text (TokenAwareOptimizer mock_count_tokens 1) ''going to'' =
     Inr (''gonna'',
          \<lparr>total_tokens_saved = 1,
           replacements = [\<lparr>made_original = ''going to'', made_replacement = ''gonna'',
                            count = 1, tokens_saved = 1\<rparr>],
           report_original_tokens = 2, optimized_tokens = 1\<rparr>)
   \<and> optimize_text (TokenAwareOptimizer mock_count_tokens 1) ''and/and/or'' =
     Inr (''and/or'',
          \<lparr>total_tokens_saved = 2,
           replacements = [\<lparr>made_original = ''and/or'', made_replacement = ''or'',
                            count = 1, tokens_saved = 2\<rparr>],
           report_original_tokens = 5, optimized_tokens = 3\<rparr>)
   \<and> optimize_text (TokenAwareOptimizer mock_count_tokens 1) ''and/or'' =
     Inr (''or'',
          \<lparr>total_tokens_saved = 2,
           replacements = [\<lparr>made_original = ''and/or'', made_replacement = ''or'',
                            count = 1, tokens_saved = 2\<rparr>],
           report_original_tokens = 3, optimized_tokens = 1\<rparr>)"
  by code_simp

text \<open>
  C7, amended. No replacement text of the table, as written, upper-cased or with its
  first character upper-cased, contains a whole-word match of any phrase of the table.
  And when no phrase of the efficient map has a whole-word match in the output of a run,
  a second run returns that output unchanged and records no replacement.
\<close>

theorem second_run_on_matchless_output:
  "list_all (\<lambda>(p, r). list_all (\<lambda>(q, r').
        findall q r = [] \<and> findall q (upper r) = []
        \<and> findall q (upper (take 1 r) @ drop 1 r) = []) replacement_candidates)
     replacement_candidates
   \<and> (optimize_text (TokenAwareOptimizer tok ms) text = Inr (out, rep) \<and>
      list_all (\<lambda>(q, info). findall q out = [])
        (token_efficient_map (TokenAwareOptimizer tok ms))
      \<longrightarrow> optimize_text (TokenAwareOptimizer tok ms) out =
            Inr (out, \<lparr>total_tokens_saved = 0, replacements = [],
                       report_original_tokens = tok out, optimized_tokens = tok out\<rparr>))"
proof -
  have 1: "list_all (\<lambda>(p, r). list_all (\<lambda>(q, r').
        findall q r = [] \<and> findall q (upper r) = []
        \<and> findall q (upper (take 1 r) @ drop 1 r) = []) replacement_candidates)
     replacement_candidates"
    by code_simp
  have 2: "optimize_text (TokenAwareOptimizer tok ms) out =
            Inr (out, \<lparr>total_tokens_saved = 0, replacements = [],
                       report_original_tokens = tok out, optimized_tokens = tok out\<rparr>)"
    if first: "optimize_text (TokenAwareOptimizer tok ms) text = Inr (out, rep)"
      and nm: "list_all (\<lambda>(q, info). findall q out = [])
        (token_efficient_map (TokenAwareOptimizer tok ms))"
  proof -
    from optimize_text_returns[of tok ms "text"] first obtain buffer where
      out: "out = strip (strip_before_punct (collapse_ws buffer))" by auto
    from cleanup_clean[of buffer] have
      "\<forall>c\<in>set out. is_space_char c \<longrightarrow> c = CHR '' ''"
      "successively (\<lambda>a b. is_space_char a \<longrightarrow> \<not> is_space_char b \<and> \<not> is_punct_char b) out"
      "out \<noteq> [] \<longrightarrow> \<not> is_space_char (hd out) \<and> \<not> is_space_char (last out)"
      unfolding out by blast+
    from cleanup_fixed[OF this] optimize_text_no_efficient_match[OF nm]
    show ?thesis by (simp add: TokenAwareOptimizer_def)
  qed
  from 1 2 show ?thesis by blast
qed

theorem second_run_on_matchless_output_witness:
  "optimize_text (TokenAwareOptimizer mock_count_tokens 1) ''we are going to  the shop ,'' =
     Inr (''we are gonna the shop,'',
          \<lparr>total_tokens_saved = 1,
           replacements = [\<lparr>made_original = ''going to'', made_replacement = ''gonna'',
                            count = 1, tokens_saved = 1\<rparr>],
           report_original_tokens = 7, optimized_tokens = 6\<rparr>)
   \<and> list_all (\<lambda>(q, info). findall q ''we are gonna the shop,'' = [])
        (token_efficient_map (TokenAwareOptimizer mock_count_tokens 1))
   \<and> optimize_text (TokenAwareOptimizer mock_count_tokens 1) ''we are gonna the shop,'' =
     Inr (''we are gonna the shop,'',
          \<lparr>total_tokens_saved = 0, replacements = [], report_original_tokens = 6,
           optimized_tokens = 6\<rparr>)"
proof -
  have h1: "optimize_text (TokenAwareOptimizer mock_count_tokens 1)
      ''we are going to  the shop ,'' =
     Inr (''we are gonna the shop,'',
          \<lparr>total_tokens_saved = 1,
           replacements = [\<lparr>made_original = ''going to'', made_replacement = ''gonna'',
                            count = 1, tokens_saved = 1\<rparr>],
           report_original_tokens = 7, optimized_tokens = 6\<rparr>)"
    by code_simp
  have h2: "list_all (\<lambda>(q, info). findall q ''we are gonna the shop,'' = [])
        (token_efficient_map (TokenAwareOptimizer mock_count_tokens 1))"
    by code_simp
  have c: "mock_count_tokens ''we are gonna the shop,'' = 6" by code_simp
  from second_run_on_matchless_output[of mock_count_tokens 1 "''we are going to  the shop ,''"
      "''we are gonna the shop,''"] h1 h2
  have "optimize_text (TokenAwareOptimizer mock_count_tokens 1) ''we are gonna the shop,'' =
     Inr (''we are gonna the shop,'',
          \<lparr>total_tokens_saved = 0, replacements = [], report_original_tokens = 6,
           optimized_tokens = 6\<rparr>)"
    unfolding c by blast
  with h1 h2 show ?thesis by blast
qed

end
